theory Spec2Isabelle
  imports Complex_Main "HOL-Library.Monad_Syntax"
begin

unbundle bit_operations_syntax

section \<open>Data model\<close>

text \<open>
  The feature extractor of \<^verbatim>\<open>cpp_feature_extractor/src/feature_extractor.cpp\<close> and its
  header. A C++ \<^verbatim>\<open>double\<close> is modelled as a \<^typ>\<open>real\<close> and a
  \<^verbatim>\<open>std::complex<double>\<close> as a \<^typ>\<open>complex\<close>: all arithmetic is exact, there is no
  rounding, no overflow to infinity and no NaN. A \<^verbatim>\<open>std::vector\<close> is a list and a
  \<^verbatim>\<open>size_t\<close> that counts or indexes elements of a vector is a \<^typ>\<open>nat\<close>. Where the
  value that rounding produces matters, for the statistics of a constant window, the
  functions are given again in IEEE double arithmetic, in a section of its own.
\<close>

datatype error = invalid_argument string

text \<open>The private member \<^verbatim>\<open>sample_rate_\<close> is the field \<open>sample_rate\<close>.\<close>

record FeatureExtractor =
  sample_rate :: real

section \<open>Configuration\<close>

text \<open>
  The constructor throws before an object exists, so it returns either the error or the
  new object. \<^verbatim>\<open>set_sample_rate\<close> mutates an existing object: it takes the object and
  returns the outcome together with the object as the call leaves it.
\<close>

definition new_FeatureExtractor :: "real \<Rightarrow> error + FeatureExtractor" where
  "new_FeatureExtractor rate =
     (if rate \<le> 0 then Inl (invalid_argument ''Sample rate must be positive'')
      else Inr \<lparr>sample_rate = rate\<rparr>)"

definition set_sample_rate :: "real \<Rightarrow> FeatureExtractor \<Rightarrow> (error + unit) \<times> FeatureExtractor" where
  "set_sample_rate rate this =
     (if rate \<le> 0 then (Inl (invalid_argument ''Sample rate must be positive''), this)
      else (Inr (), this\<lparr>sample_rate := rate\<rparr>))"

definition get_sample_rate :: "FeatureExtractor \<Rightarrow> real" where
  "get_sample_rate this = sample_rate this"

section \<open>Time-domain statistics\<close>

text \<open>Each range-based \<^verbatim>\<open>for\<close> loop is a \<^const>\<open>fold\<close> over the samples in order.\<close>

definition compute_rms :: "real list \<Rightarrow> real" where
  "compute_rms signal =
     (if signal = [] then 0
      else let sum_sq = fold (\<lambda>s sum_sq. sum_sq + s * s) signal 0
           in sqrt (sum_sq / real (length signal)))"

definition compute_peak :: "real list \<Rightarrow> real" where
  "compute_peak signal =
     (if signal = [] then 0
      else fold (\<lambda>s max_abs. max max_abs \<bar>s\<bar>) signal 0)"

definition compute_crest_factor :: "real list \<Rightarrow> real" where
  "compute_crest_factor signal =
     (let rms = compute_rms signal
      in if rms < 1 / 10 ^ 10 then 0
         else compute_peak signal / rms)"

definition compute_kurtosis :: "real list \<Rightarrow> real" where
  "compute_kurtosis signal =
     (if length signal < 4 then 0
      else
        let n = length signal;
            mean = fold (\<lambda>s mean. mean + s) signal 0 / real n;
            (m2, m4) = fold (\<lambda>s (m2, m4).
                         let diff = s - mean; diff2 = diff * diff
                         in (m2 + diff2, m4 + diff2 * diff2)) signal (0, 0);
            m2 = m2 / real n;
            m4 = m4 / real n
        in if m2 < 1 / 10 ^ 10 then 0
           else (m4 / (m2 * m2)) - 3)"

definition compute_skewness :: "real list \<Rightarrow> real" where
  "compute_skewness signal =
     (if length signal < 3 then 0
      else
        let n = length signal;
            mean = fold (\<lambda>s mean. mean + s) signal 0 / real n;
            (m2, m3) = fold (\<lambda>s (m2, m3).
                         let diff = s - mean; diff2 = diff * diff
                         in (m2 + diff2, m3 + diff2 * diff)) signal (0, 0);
            m2 = m2 / real n;
            m3 = m3 / real n;
            std_dev = sqrt m2
        in if std_dev < 1 / 10 ^ 10 then 0
           else m3 / (std_dev * std_dev * std_dev))"

text \<open>
  The population moments in the words of the specification: the mean of the window and
  the \<open>p\<close>-th central moment about it, both dividing by the number of samples.
\<close>

definition window_mean :: "real list \<Rightarrow> real" where
  "window_mean xs = sum_list xs / real (length xs)"

definition central_moment :: "nat \<Rightarrow> real list \<Rightarrow> real" where
  "central_moment p xs = (\<Sum>x\<leftarrow>xs. (x - window_mean xs) ^ p) / real (length xs)"

section \<open>Spectral transform\<close>

text \<open>
  The header's constant \<^verbatim>\<open>PI = 3.14159265358979323846\<close> is the \<^verbatim>\<open>double\<close> that stands for
  \<open>\<pi>\<close>; in exact arithmetic it is \<^const>\<open>pi\<close>.
\<close>

definition PI :: real where
  "PI = pi"

text \<open>
  \<^verbatim>\<open>next_power_of_2\<close>: \<open>p\<close> starts at 1 and is doubled while it is below \<open>n\<close>. The
  test \<open>0 < p\<close> is true throughout (a positive number doubled stays positive) and is
  what makes the recursion well-founded on \<^typ>\<open>nat\<close>. The length of a
  \<^verbatim>\<open>std::vector<double>\<close> is far below \<open>2\<^sup>6\<^sup>3\<close>, so the shift never wraps in 64 bits
  (see \<open>next_power_of_2_no_wrap\<close> below).
\<close>

function next_power_of_2_loop :: "nat \<Rightarrow> nat \<Rightarrow> nat" where
  "next_power_of_2_loop p n =
     (if 0 < p \<and> p < n then next_power_of_2_loop (push_bit 1 p) n else p)"
  by pat_completeness auto
termination
  by (relation "measure (\<lambda>(p, n). n - p)") (auto simp: push_bit_eq_mult)

definition next_power_of_2 :: "nat \<Rightarrow> nat" where
  "next_power_of_2 n = next_power_of_2_loop 1 n"

text \<open>
  \<^verbatim>\<open>bit_reverse\<close>: the loop body does not read its counter, so the recursion counts the
  iterations that remain.
\<close>

fun bit_reverse_loop :: "nat \<Rightarrow> nat \<Rightarrow> nat \<Rightarrow> nat" where
  "bit_reverse_loop 0 n result = result"
| "bit_reverse_loop (Suc k) n result =
     bit_reverse_loop k (drop_bit 1 n) (push_bit 1 result OR (n AND 1))"

definition bit_reverse :: "nat \<Rightarrow> nat \<Rightarrow> nat" where
  "bit_reverse n bits = bit_reverse_loop bits n 0"

text \<open>
  \<^verbatim>\<open>fft_recursive\<close> works in place on the vector; the model passes the vector through
  and returns it. \<^verbatim>\<open>operator[]\<close> is unchecked, so an index outside the vector is
  undefined behaviour: the model returns \<^const>\<open>None\<close> there, and \<^const>\<open>Some\<close> of the
  final vector when every access was inside.
\<close>

function count_bits_loop :: "nat \<Rightarrow> nat \<Rightarrow> nat" where
  "count_bits_loop temp bits =
     (if temp > 1 then count_bits_loop (drop_bit 1 temp) (bits + 1) else bits)"
  by pat_completeness auto
termination
  by (relation "measure (\<lambda>(temp, bits). temp)") (auto simp: drop_bit_eq_div)

definition swap_at :: "nat \<Rightarrow> nat \<Rightarrow> 'a list \<Rightarrow> 'a list option" where
  "swap_at i j x =
     (if i < length x \<and> j < length x then Some (x[i := x ! j, j := x ! i]) else None)"

function permute_loop :: "nat \<Rightarrow> nat \<Rightarrow> nat \<Rightarrow> complex list \<Rightarrow> complex list option" where
  "permute_loop n bits i x =
     (if i < n then
        let j = bit_reverse i bits
        in if i < j then do { x' \<leftarrow> swap_at i j x; permute_loop n bits (i + 1) x' }
           else permute_loop n bits (i + 1) x
      else Some x)"
  by pat_completeness auto
termination
  by (relation "measure (\<lambda>(n, bits, i, x). n - i)") auto

function butterfly_loop ::
  "nat \<Rightarrow> complex \<Rightarrow> nat \<Rightarrow> nat \<Rightarrow> complex \<Rightarrow> complex list \<Rightarrow> complex list option" where
  "butterfly_loop len wlen i j w x =
     (if j < len div 2 then
        if i + j < length x \<and> i + j + len div 2 < length x then
          let u = x ! (i + j);
              t = w * x ! (i + j + len div 2)
          in butterfly_loop len wlen i (j + 1) (w * wlen)
               (x[i + j := u + t, i + j + len div 2 := u - t])
        else None
      else Some x)"
  by pat_completeness auto
termination
  by (relation "measure (\<lambda>(len, wlen, i, j, w, x). len div 2 - j)") auto

text \<open>
  In the two outer loops \<open>len\<close> starts at 2 and is doubled, so \<open>0 < len\<close> always holds;
  the test is there for well-foundedness only. The last value of \<open>len\<close> is at most twice
  the length of the vector, and a \<^verbatim>\<open>std::vector\<close> of complex numbers has fewer than
  \<open>2\<^sup>6\<^sup>0\<close> elements, so this shift does not wrap in 64 bits either.
\<close>

function block_loop :: "nat \<Rightarrow> complex \<Rightarrow> nat \<Rightarrow> nat \<Rightarrow> complex list \<Rightarrow> complex list option" where
  "block_loop len wlen n i x =
     (if 0 < len \<and> i < n then
        do { x' \<leftarrow> butterfly_loop len wlen i 0 1 x; block_loop len wlen n (i + len) x' }
      else Some x)"
  by pat_completeness auto
termination
  by (relation "measure (\<lambda>(len, wlen, n, i, x). n - i)") auto

function stage_loop :: "nat \<Rightarrow> nat \<Rightarrow> complex list \<Rightarrow> complex list option" where
  "stage_loop n len x =
     (if 0 < len \<and> len \<le> n then
        let angle = - 2 * PI / real len;
            wlen = Complex (cos angle) (sin angle)
        in do { x' \<leftarrow> block_loop len wlen n 0 x; stage_loop n (push_bit 1 len) x' }
      else Some x)"
  by pat_completeness auto
termination
  by (relation "measure (\<lambda>(n, len, x). Suc n - len)") (auto simp: push_bit_eq_mult)

definition fft_recursive :: "complex list \<Rightarrow> complex list option" where
  "fft_recursive x =
     (let n = length x
      in if n \<le> 1 then Some x
         else
           let bits = count_bits_loop n 0
           in do { x' \<leftarrow> permute_loop n bits 0 x; stage_loop n 2 x' })"

text \<open>
  \<^verbatim>\<open>compute_fft\<close>. The copy loop and the loop that fills the two result vectors are
  folds over the index range; the indices they write are inside the vectors by
  construction (\<open>signal.size() \<le> n\<close>, and both result vectors have \<open>half_n\<close> elements).
\<close>

definition compute_fft :: "FeatureExtractor \<Rightarrow> real list \<Rightarrow> (real list \<times> real list) option" where
  "compute_fft this signal =
     (if signal = [] then Some ([], [])
      else
        let n = next_power_of_2 (length signal);
            x = replicate n (Complex 0 0);
            x = fold (\<lambda>i x. x[i := Complex (signal ! i) 0]) [0..<length signal] x
        in do {
          x \<leftarrow> fft_recursive x;
          let half_n = n div 2;
              magnitudes = replicate half_n (0::real);
              frequencies = replicate half_n (0::real);
              freq_resolution = sample_rate this / real n;
              (magnitudes, frequencies) =
                 fold (\<lambda>i (magnitudes, frequencies).
                         (magnitudes[i := cmod (x ! i) * 2 / real n],
                          frequencies[i := real i * freq_resolution]))
                      [0..<half_n] (magnitudes, frequencies);
              magnitudes = (if magnitudes \<noteq> [] then magnitudes[0 := magnitudes ! 0 / 2]
                            else magnitudes)
          in Some (magnitudes, frequencies)
        })"

section \<open>Frequency-domain statistics\<close>

definition compute_spectral_centroid :: "real list \<Rightarrow> real list \<Rightarrow> real" where
  "compute_spectral_centroid magnitudes frequencies =
     (if magnitudes = [] \<or> frequencies = [] then 0
      else
        let (weighted_sum, total_power) =
              fold (\<lambda>i (weighted_sum, total_power).
                      let power = magnitudes ! i * magnitudes ! i
                      in (weighted_sum + frequencies ! i * power, total_power + power))
                   [0..<min (length magnitudes) (length frequencies)] (0, 0)
        in if total_power < 1 / 10 ^ 10 then 0
           else weighted_sum / total_power)"

definition compute_spectral_spread :: "real list \<Rightarrow> real list \<Rightarrow> real \<Rightarrow> real" where
  "compute_spectral_spread magnitudes frequencies centroid =
     (if magnitudes = [] \<or> frequencies = [] then 0
      else
        let (weighted_var, total_power) =
              fold (\<lambda>i (weighted_var, total_power).
                      let power = magnitudes ! i * magnitudes ! i;
                          diff = frequencies ! i - centroid
                      in (weighted_var + diff * diff * power, total_power + power))
                   [0..<min (length magnitudes) (length frequencies)] (0, 0)
        in if total_power < 1 / 10 ^ 10 then 0
           else sqrt (weighted_var / total_power))"

text \<open>The table \<^verbatim>\<open>FREQ_BANDS\<close> of the header: five pairs \<open>(low, high)\<close> in Hz.\<close>

definition FREQ_BANDS :: "(real \<times> real) list" where
  "FREQ_BANDS = [(0, 100), (100, 500), (500, 1000), (1000, 2000), (2000, 10000)]"

text \<open>
  The inner loop of \<^verbatim>\<open>compute_bandpower\<close> with its \<^verbatim>\<open>break\<close>: the first band that
  contains \<open>freq\<close> receives the power of the bin and the loop ends; a frequency in no band leaves
  the sums as they are.
\<close>

function band_loop :: "real \<Rightarrow> real \<Rightarrow> nat \<Rightarrow> real list \<Rightarrow> real list" where
  "band_loop freq power' b bandpowers =
     (if b < length FREQ_BANDS then
        if freq \<ge> fst (FREQ_BANDS ! b) \<and> freq < snd (FREQ_BANDS ! b)
        then bandpowers[b := bandpowers ! b + power']
        else band_loop freq power' (b + 1) bandpowers
      else bandpowers)"
  by pat_completeness auto
termination
  by (relation "measure (\<lambda>(freq, power', b, bandpowers). length FREQ_BANDS - b)") auto

definition compute_bandpower :: "real list \<Rightarrow> real list \<Rightarrow> real list" where
  "compute_bandpower magnitudes frequencies =
     (let bandpowers = replicate (length FREQ_BANDS) 0
      in if magnitudes = [] \<or> frequencies = [] then bandpowers
         else fold (\<lambda>i bandpowers.
                      let freq = frequencies ! i;
                          power = magnitudes ! i * magnitudes ! i
                      in band_loop freq power 0 bandpowers)
                   [0..<min (length magnitudes) (length frequencies)] bandpowers)"

definition get_band_names :: "string list" where
  "get_band_names =
     [''0-100 Hz'', ''100-500 Hz'', ''500-1000 Hz'', ''1000-2000 Hz'', ''2000+ Hz'']"

section \<open>The whole extraction\<close>

text \<open>
  The result structure \<^verbatim>\<open>SignalFeatures\<close> of the header. It is declared here, after
  the functions whose local variables carry the same names as its fields.
\<close>

record SignalFeatures =
  rms :: real
  peak :: real
  crest_factor :: real
  kurtosis :: real
  skewness :: real
  spectral_centroid :: real
  spectral_spread :: real
  fft_magnitude :: "real list"
  fft_frequencies :: "real list"
  bandpowers :: "real list"
  band_names :: "string list"

definition extract_all :: "FeatureExtractor \<Rightarrow> real list \<Rightarrow> SignalFeatures option" where
  "extract_all this signal =
     do {
       (magnitudes, frequencies) \<leftarrow> compute_fft this signal;
       let centroid = compute_spectral_centroid magnitudes frequencies
       in Some \<lparr>rms = compute_rms signal,
                peak = compute_peak signal,
                crest_factor = compute_crest_factor signal,
                kurtosis = compute_kurtosis signal,
                skewness = compute_skewness signal,
                spectral_centroid = centroid,
                spectral_spread = compute_spectral_spread magnitudes frequencies centroid,
                fft_magnitude = magnitudes,
                fft_frequencies = frequencies,
                bandpowers = compute_bandpower magnitudes frequencies,
                band_names = get_band_names\<rparr>
     }"

text \<open>
  \<^verbatim>\<open>extract_all\<close> once more, statement by statement. The declaration
  \<^verbatim>\<open>SignalFeatures features;\<close> leaves the seven \<^verbatim>\<open>double\<close> members of the local
  uninitialised: what they hold is whatever the stack held before the call. The
  parameter \<open>features\<close> is the content of the local before the first assignment, and
  each assignment of the source updates one field. The method is \<^verbatim>\<open>const\<close>; it reads the
  window and the member \<^verbatim>\<open>sample_rate_\<close>, and the source has no static or global variable.
\<close>

definition extract_all_from ::
  "SignalFeatures \<Rightarrow> FeatureExtractor \<Rightarrow> real list \<Rightarrow> SignalFeatures option" where
  "extract_all_from features this signal =
     (let features = features\<lparr>rms := compute_rms signal\<rparr>;
          features = features\<lparr>peak := compute_peak signal\<rparr>;
          features = features\<lparr>crest_factor := compute_crest_factor signal\<rparr>;
          features = features\<lparr>kurtosis := compute_kurtosis signal\<rparr>;
          features = features\<lparr>skewness := compute_skewness signal\<rparr>
      in do {
        (magnitudes, frequencies) \<leftarrow> compute_fft this signal;
        let features = features\<lparr>fft_magnitude := magnitudes\<rparr>;
            features = features\<lparr>fft_frequencies := frequencies\<rparr>;
            features = features\<lparr>spectral_centroid :=
                         compute_spectral_centroid magnitudes frequencies\<rparr>;
            features = features\<lparr>spectral_spread :=
                         compute_spectral_spread magnitudes frequencies
                           (spectral_centroid features)\<rparr>;
            features = features\<lparr>bandpowers := compute_bandpower magnitudes frequencies\<rparr>;
            features = features\<lparr>band_names := get_band_names\<rparr>
        in Some features
      })"

section \<open>Reference definitions in the words of the specification\<close>

text \<open>
  The forward discrete Fourier transform
  \<open>X[k] = \<Sum>n<N. x[n] \<sqdot> e\<^sup>-\<^sup>2\<^sup>\<pi>\<^sup>i\<^sup>k\<^sup>n\<^sup>/\<^sup>N\<close>, and the window embedded into the complex numbers
  and extended with zeros to length \<open>n\<close>.
\<close>

definition dft :: "complex list \<Rightarrow> complex list" where
  "dft x =
     map (\<lambda>k. \<Sum>n<length x.
                 x ! n * exp (- (2 * of_real pi * \<i> * of_nat k * of_nat n / of_nat (length x))))
         [0..<length x]"

definition zero_pad :: "nat \<Rightarrow> real list \<Rightarrow> complex list" where
  "zero_pad n signal = map (\<lambda>s. Complex s 0) signal @ replicate (n - length signal) 0"

section \<open>The time-domain statistics in IEEE double arithmetic\<close>
























section \<open>Auxiliary notions for the correctness of the transform\<close>

text \<open>
  The twiddle factor of a stage with block size \<open>len\<close>, the \<open>k\<close>-th bin of the
  transform of length \<open>L\<close> of the subsequence of \<open>x\<close> that starts at \<open>offset\<close> and
  advances by \<open>stride\<close>, and the state of the vector after the stage with block size
  \<open>2\<^sup>s\<close> of a transform of length \<open>2\<^sup>m\<close>: block \<open>b\<close> holds the transform of the
  subsequence that starts at the bit reversal of \<open>b\<close>.
\<close>

definition omega :: "nat \<Rightarrow> complex" where
  "omega len = cis (- 2 * pi / real len)"

definition sub_dft :: "complex list \<Rightarrow> nat \<Rightarrow> nat \<Rightarrow> nat \<Rightarrow> nat \<Rightarrow> complex" where
  "sub_dft x stride offset L k = (\<Sum>t<L. x ! (offset + t * stride) * omega L ^ (k * t))"

definition stage_inv :: "complex list \<Rightarrow> nat \<Rightarrow> nat \<Rightarrow> complex list \<Rightarrow> bool" where
  "stage_inv x m s y \<longleftrightarrow>
     length y = 2 ^ m \<and>
     (\<forall>b<2 ^ (m - s). \<forall>k<2 ^ s.
        y ! (b * 2 ^ s + k) = sub_dft x (2 ^ (m - s)) (bit_reverse b (m - s)) (2 ^ s) k)"

text \<open>The loop equations are unfolded by hand, step by step.\<close>

declare next_power_of_2_loop.simps [simp del]
declare count_bits_loop.simps [simp del]
declare permute_loop.simps [simp del]
declare butterfly_loop.simps [simp del]
declare block_loop.simps [simp del]
declare stage_loop.simps [simp del]
declare band_loop.simps [simp del]

section \<open>Properties of the configuration\<close>

text \<open>
  Claim C4. Constructing an extractor with \<open>r\<close>, or setting the rate of an existing one
  to \<open>r\<close>, fails with the invalid-argument error exactly when \<open>r \<le> 0\<close>; a positive \<open>r\<close>
  is accepted and stored; a failed update leaves the object as it was.
\<close>

theorem sample_rate_validation:
  "((\<exists>msg. new_FeatureExtractor r = Inl (invalid_argument msg)) \<longleftrightarrow> r \<le> 0) \<and>
   ((\<exists>msg. fst (set_sample_rate r this) = Inl (invalid_argument msg)) \<longleftrightarrow> r \<le> 0) \<and>
   (0 < r \<longrightarrow> new_FeatureExtractor r = Inr \<lparr>sample_rate = r\<rparr> \<and>
             set_sample_rate r this = (Inr (), this\<lparr>sample_rate := r\<rparr>) \<and>
             get_sample_rate (snd (set_sample_rate r this)) = r) \<and>
   (r \<le> 0 \<longrightarrow> snd (set_sample_rate r this) = this)"
  by (simp add: new_FeatureExtractor_def set_sample_rate_def get_sample_rate_def)

theorem sample_rate_validation_witness:
  "new_FeatureExtractor 5000 = Inr \<lparr>sample_rate = 5000\<rparr> \<and>
   set_sample_rate 8000 \<lparr>sample_rate = 5000\<rparr> = (Inr (), \<lparr>sample_rate = 8000\<rparr>) \<and>
   (\<exists>msg. new_FeatureExtractor 0 = Inl (invalid_argument msg)) \<and>
   (\<exists>msg. fst (set_sample_rate (- 1) \<lparr>sample_rate = 5000\<rparr>) = Inl (invalid_argument msg)) \<and>
   snd (set_sample_rate (- 1) \<lparr>sample_rate = 5000\<rparr>) = \<lparr>sample_rate = 5000\<rparr>"
  using sample_rate_validation [of 5000 "\<lparr>sample_rate = 5000\<rparr>"]
        sample_rate_validation [of 8000 "\<lparr>sample_rate = 5000\<rparr>"]
        sample_rate_validation [of 0 "\<lparr>sample_rate = 5000\<rparr>"]
        sample_rate_validation [of "- 1" "\<lparr>sample_rate = 5000\<rparr>"]
  by simp

section \<open>Properties of the time-domain statistics\<close>

lemma fold_add_sum_list: "fold (\<lambda>s acc. acc + f s) xs (a::real) = a + (\<Sum>x\<leftarrow>xs. f x)"
  by (induction xs arbitrary: a) (simp_all add: add.assoc)

lemma fold_m2_m4:
  "fold (\<lambda>s (m2, m4). (m2 + (s - mu) * (s - mu),
                         m4 + (s - mu) * (s - mu) * ((s - mu) * (s - mu)))) xs (a, b)
     = (a + (\<Sum>x\<leftarrow>xs. (x - mu)\<^sup>2), b + (\<Sum>x\<leftarrow>xs. (x - mu :: real) ^ 4))"
  by (induction xs arbitrary: a b)
     (simp_all add: add.assoc power2_eq_square power4_eq_xxxx mult.assoc)

lemma fold_mean: "fold (\<lambda>s mean. mean + s) signal 0 / real (length signal) = window_mean signal"
  using fold_add_sum_list [of "\<lambda>s. s" signal 0] by (simp add: window_mean_def)

text \<open>
  Claim C6. \<^const>\<open>compute_kurtosis\<close> returns 0 on a window of fewer than 4 samples;
  otherwise, with the population central moments \<open>m2\<close> and \<open>m4\<close> about the mean, it
  returns 0 when \<open>m2 < 1e-10\<close> and \<open>m4 / m2\<^sup>2 - 3\<close> otherwise.
\<close>

theorem compute_kurtosis_population_moments:
  "compute_kurtosis signal =
     (if length signal < 4 then 0
      else if central_moment 2 signal < 1 / 10 ^ 10 then 0
      else central_moment 4 signal / (central_moment 2 signal)\<^sup>2 - 3)"
  unfolding compute_kurtosis_def Let_def fold_mean fold_m2_m4
  by (simp add: central_moment_def power2_eq_square)

text \<open>
  Claim C7. \<^const>\<open>compute_crest_factor\<close> returns 0 whenever the RMS of the window is
  below \<open>1e-10\<close>, and \<open>peak / rms\<close> otherwise; where it divides, the divisor is at least
  \<open>1e-10\<close>, hence not zero.
\<close>

theorem compute_crest_factor_guarded:
  "(compute_rms signal < 1 / 10 ^ 10 \<longrightarrow> compute_crest_factor signal = 0) \<and>
   (\<not> compute_rms signal < 1 / 10 ^ 10 \<longrightarrow>
      compute_crest_factor signal = compute_peak signal / compute_rms signal \<and>
      1 / 10 ^ 10 \<le> compute_rms signal \<and> compute_rms signal \<noteq> 0)"
  by (auto simp: compute_crest_factor_def Let_def)

theorem compute_crest_factor_guarded_witness:
  "compute_rms [] < 1 / 10 ^ 10 \<and> compute_crest_factor [] = 0 \<and>
   \<not> compute_rms [2] < 1 / 10 ^ 10 \<and> compute_crest_factor [2] = 1"
  using compute_crest_factor_guarded [of "[]"] compute_crest_factor_guarded [of "[2]"]
  by (simp add: compute_rms_def compute_peak_def)






section \<open>Properties of the whole extraction on degenerate windows\<close>

lemma next_power_of_2_one: "next_power_of_2 (Suc 0) = 1"
  by (simp add: next_power_of_2_def next_power_of_2_loop.simps)

lemma compute_fft_empty: "compute_fft this [] = Some ([], [])"
  by (simp add: compute_fft_def)

lemma fft_recursive_single: "fft_recursive [c] = Some [c]"
  by (simp add: fft_recursive_def)

lemma compute_fft_single: "compute_fft this [v] = Some ([], [])"
  by (simp add: compute_fft_def next_power_of_2_one fft_recursive_single)

lemma compute_bandpower_empty: "compute_bandpower [] [] = [0, 0, 0, 0, 0]"
  by (simp add: compute_bandpower_def FREQ_BANDS_def)

lemma extract_all_empty:
  "extract_all this [] =
     Some \<lparr>rms = 0, peak = 0, crest_factor = 0, kurtosis = 0, skewness = 0,
           spectral_centroid = 0, spectral_spread = 0,
           fft_magnitude = [], fft_frequencies = [],
           bandpowers = [0, 0, 0, 0, 0], band_names = get_band_names\<rparr>"
  by (simp add: extract_all_def compute_fft_empty compute_bandpower_empty
        compute_rms_def compute_peak_def compute_crest_factor_def compute_kurtosis_def
        compute_skewness_def compute_spectral_centroid_def compute_spectral_spread_def)

lemma extract_all_single:
  "extract_all this [v] =
     Some \<lparr>rms = \<bar>v\<bar>, peak = \<bar>v\<bar>,
           crest_factor = (if \<bar>v\<bar> < 1 / 10 ^ 10 then 0 else 1),
           kurtosis = 0, skewness = 0,
           spectral_centroid = 0, spectral_spread = 0,
           fft_magnitude = [], fft_frequencies = [],
           bandpowers = [0, 0, 0, 0, 0], band_names = get_band_names\<rparr>"
  by (simp add: extract_all_def compute_fft_single compute_bandpower_empty
        compute_rms_def compute_peak_def compute_crest_factor_def compute_kurtosis_def
        compute_skewness_def compute_spectral_centroid_def compute_spectral_spread_def)

text \<open>
  Claim C3. On the empty window \<^const>\<open>extract_all\<close> returns a record (no access outside
  a vector, no error) whose \<open>rms\<close>, \<open>peak\<close>, \<open>crest_factor\<close>, \<open>spectral_centroid\<close> and
  \<open>spectral_spread\<close> are 0, whose five band powers are 0 and whose two spectrum
  sequences are empty, whatever the stored sample rate is.
\<close>

theorem extract_all_empty_window:
  "extract_all this [] =
     Some \<lparr>rms = 0, peak = 0, crest_factor = 0, kurtosis = 0, skewness = 0,
           spectral_centroid = 0, spectral_spread = 0,
           fft_magnitude = [], fft_frequencies = [],
           bandpowers = [0, 0, 0, 0, 0], band_names = get_band_names\<rparr>"
  by (rule extract_all_empty)

text \<open>
  Claim C10. A window of exactly one sample is padded to length \<open>N = 1\<close>, so
  \<^const>\<open>compute_fft\<close> returns two empty sequences (\<open>N div 2 = 0\<close> bins), and
  \<^const>\<open>extract_all\<close> yields an empty spectrum, \<open>spectral_centroid = spectral_spread = 0\<close>
  and five band powers 0: the frequency-domain fields of the record are those of the
  record for the empty window.
\<close>

theorem single_sample_window:
  "next_power_of_2 (length [v]) = 1 \<and>
   compute_fft this [v] = Some ([], []) \<and>
   (\<exists>r r0. extract_all this [v] = Some r \<and> extract_all this [] = Some r0 \<and>
      fft_magnitude r = [] \<and> fft_frequencies r = [] \<and>
      spectral_centroid r = 0 \<and> spectral_spread r = 0 \<and>
      bandpowers r = [0, 0, 0, 0, 0] \<and>
      fft_magnitude r = fft_magnitude r0 \<and> fft_frequencies r = fft_frequencies r0 \<and>
      spectral_centroid r = spectral_centroid r0 \<and>
      spectral_spread r = spectral_spread r0 \<and>
      bandpowers r = bandpowers r0)"
  by (simp add: next_power_of_2_one compute_fft_single extract_all_single extract_all_empty)

section \<open>Determinism\<close>

lemma extract_all_from_eq: "extract_all_from features this signal = extract_all this signal"
  by (cases features)
     (simp add: extract_all_from_def extract_all_def Let_def split: option.splits prod.splits)

lemma compute_fft_sample_rate:
  "sample_rate this1 = sample_rate this2 \<Longrightarrow> compute_fft this1 signal = compute_fft this2 signal"
  by (simp add: compute_fft_def)

text \<open>
  Claim C9. Two calls of \<^verbatim>\<open>extract_all\<close> with the same window, on extractors that store
  the same sample rate, return the same outcome and records that agree in every field,
  whatever the uninitialised local \<^verbatim>\<open>features\<close> of each call held before its
  assignments: every field of the record is assigned, from the window and the sample
  rate alone.
\<close>

theorem extract_all_two_run_determinism:
  assumes "sample_rate this1 = sample_rate this2"
  shows "extract_all_from features1 this1 signal = extract_all_from features2 this2 signal"
proof -
  have "extract_all_from features1 this1 signal = extract_all this1 signal"
    by (rule extract_all_from_eq)
  also have "\<dots> = extract_all this2 signal"
    using compute_fft_sample_rate [OF assms] by (simp add: extract_all_def)
  also have "\<dots> = extract_all_from features2 this2 signal"
    by (rule extract_all_from_eq [symmetric])
  finally show ?thesis .
qed

theorem extract_all_two_run_determinism_witness:
  "sample_rate \<lparr>sample_rate = 5000\<rparr> =
     sample_rate (snd (set_sample_rate 5000 \<lparr>sample_rate = 8000\<rparr>)) \<and>
   extract_all_from
     \<lparr>rms = 1, peak = 2, crest_factor = 3, kurtosis = 4, skewness = 5,
      spectral_centroid = 6, spectral_spread = 7, fft_magnitude = [8], fft_frequencies = [9],
      bandpowers = [10], band_names = [''x'']\<rparr>
     \<lparr>sample_rate = 5000\<rparr> [2, 0, - 2] =
   extract_all_from
     \<lparr>rms = 0, peak = 0, crest_factor = 0, kurtosis = 0, skewness = 0,
      spectral_centroid = 0, spectral_spread = 0, fft_magnitude = [], fft_frequencies = [],
      bandpowers = [], band_names = []\<rparr>
     (snd (set_sample_rate 5000 \<lparr>sample_rate = 8000\<rparr>)) [2, 0, - 2]"
  using extract_all_two_run_determinism
          [of "\<lparr>sample_rate = 5000\<rparr>" "snd (set_sample_rate 5000 \<lparr>sample_rate = 8000\<rparr>)"]
  by (simp add: set_sample_rate_def)

section \<open>Bit reversal\<close>

lemma count_bits_loop_power: "count_bits_loop (2 ^ m) bits = bits + m"
proof (induction m arbitrary: bits)
  case 0
  show ?case by (simp add: count_bits_loop.simps)
next
  case (Suc m)
  have "(1::nat) < 2 ^ Suc m" by (rule one_less_power) simp_all
  then have "count_bits_loop (2 ^ Suc m) bits = count_bits_loop (2 ^ m) (bits + 1)"
    by (subst count_bits_loop.simps) (simp add: drop_bit_eq_div)
  with Suc.IH [of "bits + 1"] show ?case by simp
qed

lemma push_or_bit: "push_bit 1 r OR (n AND 1) = 2 * r + n mod 2" for r n :: nat
proof (cases "even n")
  case True
  then show ?thesis by (simp add: and_one_eq push_bit_eq_mult)
next
  case False
  then have "n AND 1 = 1" "n mod 2 = 1"
    by (simp_all add: and_one_eq mod_2_eq_odd)
  then show ?thesis
    by (simp add: push_bit_eq_mult or_Suc_0_eq)
qed

lemma bit_reverse_loop_Suc:
  "bit_reverse_loop (Suc k) n r = bit_reverse_loop k (n div 2) (2 * r + n mod 2)"
  by (simp only: bit_reverse_loop.simps push_or_bit drop_bit_eq_div power_one_right)

lemma bit_reverse_loop_acc: "bit_reverse_loop k n r = r * 2 ^ k + bit_reverse n k"
proof (induction k arbitrary: n r)
  case 0
  show ?case by (simp add: bit_reverse_def)
next
  case (Suc k)
  have "bit_reverse_loop (Suc k) n r = (2 * r + n mod 2) * 2 ^ k + bit_reverse (n div 2) k"
    unfolding bit_reverse_loop_Suc by (rule Suc.IH)
  moreover have "bit_reverse n (Suc k) = (n mod 2) * 2 ^ k + bit_reverse (n div 2) k"
    unfolding bit_reverse_def bit_reverse_loop_Suc using Suc.IH [of "n div 2" "n mod 2"]
    by (simp add: bit_reverse_def)
  ultimately show ?case by (simp add: algebra_simps)
qed

lemma bit_reverse_0 [simp]: "bit_reverse n 0 = 0"
  by (simp add: bit_reverse_def)

lemma bit_reverse_Suc: "bit_reverse n (Suc k) = (n mod 2) * 2 ^ k + bit_reverse (n div 2) k"
  unfolding bit_reverse_def bit_reverse_loop_Suc
  using bit_reverse_loop_acc [of k "n div 2" "n mod 2"] by (simp add: bit_reverse_def)

lemma bit_reverse_less: "bit_reverse n k < 2 ^ k"
proof (induction k arbitrary: n)
  case 0
  show ?case by simp
next
  case (Suc k)
  have "n mod 2 = 0 \<or> n mod 2 = 1" by arith
  with Suc.IH [of "n div 2"] show ?case
    unfolding bit_reverse_Suc by auto
qed

lemma bit_reverse_even: "bit_reverse (2 * b) (Suc k) = bit_reverse b k"
  by (simp add: bit_reverse_Suc)

lemma bit_reverse_odd: "bit_reverse (2 * b + 1) (Suc k) = 2 ^ k + bit_reverse b k"
  by (simp add: bit_reverse_Suc)

lemma bit_reverse_Suc_high:
  "bit_reverse n (Suc k) = 2 * bit_reverse n k + (n div 2 ^ k) mod 2"
proof (induction k arbitrary: n)
  case 0
  show ?case by (simp add: bit_reverse_Suc)
next
  case (Suc k)
  have "bit_reverse n (Suc (Suc k)) = (n mod 2) * 2 ^ Suc k + bit_reverse (n div 2) (Suc k)"
    by (rule bit_reverse_Suc)
  also have "\<dots> = (n mod 2) * 2 ^ Suc k + (2 * bit_reverse (n div 2) k + (n div 2 div 2 ^ k) mod 2)"
    by (simp only: Suc.IH)
  also have "\<dots> = 2 * bit_reverse n (Suc k) + (n div 2 ^ Suc k) mod 2"
    by (simp add: bit_reverse_Suc [of n k] div_mult2_eq algebra_simps)
  finally show ?case .
qed

lemma bit_reverse_mod: "bit_reverse (a * 2 ^ k + r) k = bit_reverse r k"
proof (induction k arbitrary: a r)
  case 0
  show ?case by simp
next
  case (Suc k)
  have e: "a * 2 ^ Suc k + r = 2 * (a * 2 ^ k) + r" by simp
  have "(a * 2 ^ Suc k + r) mod 2 = r mod 2"
    unfolding e by simp
  moreover have "(a * 2 ^ Suc k + r) div 2 = a * 2 ^ k + r div 2"
    unfolding e by simp
  ultimately show ?case
    by (simp add: bit_reverse_Suc Suc.IH del: power_Suc)
qed

lemma bit_reverse_involution: "n < 2 ^ k \<Longrightarrow> bit_reverse (bit_reverse n k) k = n"
proof (induction k arbitrary: n)
  case 0
  then show ?case by simp
next
  case (Suc k)
  let ?q = "n div 2" and ?b = "n mod 2"
  from Suc.prems have q: "?q < 2 ^ k" by simp
  have r: "bit_reverse n (Suc k) = ?b * 2 ^ k + bit_reverse ?q k"
    by (rule bit_reverse_Suc)
  have lt: "bit_reverse ?q k < 2 ^ k" by (rule bit_reverse_less)
  have "bit_reverse (?b * 2 ^ k + bit_reverse ?q k) (Suc k)
          = 2 * bit_reverse (?b * 2 ^ k + bit_reverse ?q k) k
            + ((?b * 2 ^ k + bit_reverse ?q k) div 2 ^ k) mod 2"
    by (rule bit_reverse_Suc_high)
  also have "bit_reverse (?b * 2 ^ k + bit_reverse ?q k) k = bit_reverse (bit_reverse ?q k) k"
    by (rule bit_reverse_mod)
  also have "\<dots> = ?q" using q by (rule Suc.IH)
  also have "(?b * 2 ^ k + bit_reverse ?q k) div 2 ^ k = ?b"
    using lt by simp
  finally show ?case unfolding r by simp
qed

section \<open>The bit-reversal permutation\<close>

lemma permute_step:
  assumes len: "length y = 2 ^ m" and i: "i < 2 ^ m"
    and inv: "\<forall>k<2 ^ m. y ! k =
                (if k < i \<or> bit_reverse k m < i then x ! bit_reverse k m else x ! k)"
  shows "\<forall>k<2 ^ m. (if i < bit_reverse i m then y[i := y ! bit_reverse i m, bit_reverse i m := y ! i] else y) ! k =
                (if k < Suc i \<or> bit_reverse k m < Suc i then x ! bit_reverse k m else x ! k)"
proof (intro allI impI)
  fix k :: nat
  assume k: "k < 2 ^ m"
  define j where "j = bit_reverse i m"
  have j: "j < 2 ^ m" unfolding j_def by (rule bit_reverse_less)
  have rj: "bit_reverse j m = i" unfolding j_def using i by (rule bit_reverse_involution)
  have rk: "bit_reverse (bit_reverse k m) m = k" using k by (rule bit_reverse_involution)
  have rk_i: "bit_reverse k m = i \<longleftrightarrow> k = j"
    using rk rj j_def by auto
  have yi: "y ! i = (if j < i then x ! j else x ! i)"
    using inv i by (simp add: j_def)
  have yj: "y ! j = (if j < i then x ! i else x ! j)"
    using inv j rj by auto
  have yk: "y ! k = (if k < i \<or> bit_reverse k m < i then x ! bit_reverse k m else x ! k)"
    using inv k by simp
  show "(if i < bit_reverse i m then y[i := y ! bit_reverse i m, bit_reverse i m := y ! i] else y) ! k =
          (if k < Suc i \<or> bit_reverse k m < Suc i then x ! bit_reverse k m else x ! k)"
  proof (cases "i < j")
    case True
    consider "k = i" | "k = j" | "k \<noteq> i" "k \<noteq> j" by blast
    then show ?thesis
    proof cases
      case 1
      with True yj i len show ?thesis
        by (simp add: j_def [symmetric] nth_list_update)
    next
      case 2
      with True yi j len rj show ?thesis
        by (simp add: j_def [symmetric] nth_list_update)
    next
      case 3
      with True yk rk_i len show ?thesis
        by (auto simp: j_def [symmetric] nth_list_update less_Suc_eq)
    qed
  next
    case False
    show ?thesis
    proof (cases "k = i")
      case True
      with False yi show ?thesis
        by (auto simp: j_def [symmetric])
    next
      case ki: False
      with False yk rk_i show ?thesis
        by (auto simp: j_def [symmetric] less_Suc_eq)
    qed
  qed
qed

lemma permute_loop_inv:
  assumes "length y = 2 ^ m" and "i \<le> 2 ^ m"
    and "\<forall>k<2 ^ m. y ! k =
                (if k < i \<or> bit_reverse k m < i then x ! bit_reverse k m else x ! k)"
  shows "\<exists>z. permute_loop (2 ^ m) m i y = Some z \<and> length z = 2 ^ m \<and>
             (\<forall>k<2 ^ m. z ! k = x ! bit_reverse k m)"
  using assms
proof (induction "2 ^ m - i" arbitrary: i y)
  case 0
  then have "i = 2 ^ m" by simp
  with 0 show ?case
    by (subst permute_loop.simps) simp
next
  case (Suc d)
  then have i: "i < 2 ^ m" by simp
  let ?j = "bit_reverse i m"
  let ?y = "if i < ?j then y[i := y ! ?j, ?j := y ! i] else y"
  have j: "?j < 2 ^ m" by (rule bit_reverse_less)
  have step: "permute_loop (2 ^ m) m i y = permute_loop (2 ^ m) m (i + 1) ?y"
    using i j Suc.prems(1) by (subst permute_loop.simps) (simp add: swap_at_def Let_def)
  have "\<exists>z. permute_loop (2 ^ m) m (Suc i) ?y = Some z \<and> length z = 2 ^ m \<and>
             (\<forall>k<2 ^ m. z ! k = x ! bit_reverse k m)"
  proof (rule Suc.hyps(1))
    show "d = 2 ^ m - Suc i" using Suc.hyps(2) by simp
    show "length ?y = 2 ^ m" using Suc.prems(1) by simp
    show "Suc i \<le> 2 ^ m" using i by simp
    show "\<forall>k<2 ^ m. ?y ! k =
            (if k < Suc i \<or> bit_reverse k m < Suc i then x ! bit_reverse k m else x ! k)"
      using Suc.prems(1) i Suc.prems(3) by (rule permute_step)
  qed
  with step show ?case by simp
qed

lemma permute_loop_correct:
  assumes "length x = 2 ^ m"
  shows "\<exists>z. permute_loop (2 ^ m) m 0 x = Some z \<and> length z = 2 ^ m \<and>
             (\<forall>k<2 ^ m. z ! k = x ! bit_reverse k m)"
  using assms by (intro permute_loop_inv) simp_all

section \<open>One block of butterflies\<close>

lemma butterfly_loop_inv:
  assumes "i + 2 * L \<le> length x" and "j \<le> L" and "w = wlen ^ j"
  shows "\<exists>y. butterfly_loop (2 * L) wlen i j w x = Some y \<and> length y = length x \<and>
           (\<forall>k<L. j \<le> k \<longrightarrow>
               y ! (i + k) = x ! (i + k) + wlen ^ k * x ! (i + k + L) \<and>
               y ! (i + k + L) = x ! (i + k) - wlen ^ k * x ! (i + k + L)) \<and>
           (\<forall>p<length x. p < i + j \<or> (i + L \<le> p \<and> p < i + L + j) \<or> i + 2 * L \<le> p
               \<longrightarrow> y ! p = x ! p)"
  using assms
proof (induction "L - j" arbitrary: j w x)
  case 0
  then have "j = L" by simp
  then show ?case
    by (subst butterfly_loop.simps) simp
next
  case (Suc d)
  then have j: "j < L" by simp
  let ?u = "x ! (i + j)" and ?t = "w * x ! (i + j + L)"
  let ?x = "x[i + j := ?u + ?t, i + j + L := ?u - ?t]"
  have step: "butterfly_loop (2 * L) wlen i j w x =
                butterfly_loop (2 * L) wlen i (j + 1) (w * wlen) ?x"
    using j Suc.prems(1) by (subst butterfly_loop.simps) (simp add: Let_def)
  have "\<exists>y. butterfly_loop (2 * L) wlen i (Suc j) (w * wlen) ?x = Some y \<and>
          length y = length ?x \<and>
           (\<forall>k<L. Suc j \<le> k \<longrightarrow>
               y ! (i + k) = ?x ! (i + k) + wlen ^ k * ?x ! (i + k + L) \<and>
               y ! (i + k + L) = ?x ! (i + k) - wlen ^ k * ?x ! (i + k + L)) \<and>
           (\<forall>p<length ?x. p < i + Suc j \<or> (i + L \<le> p \<and> p < i + L + Suc j) \<or> i + 2 * L \<le> p
               \<longrightarrow> y ! p = ?x ! p)"
  proof (rule Suc.hyps(1))
    show "d = L - Suc j" using Suc.hyps(2) by simp
    show "i + 2 * L \<le> length ?x" using Suc.prems(1) by simp
    show "Suc j \<le> L" using j by simp
    show "w * wlen = wlen ^ Suc j" using Suc.prems(3) by simp
  qed
  then obtain y where y: "butterfly_loop (2 * L) wlen i (Suc j) (w * wlen) ?x = Some y"
    and leny: "length y = length x"
    and upd: "\<And>k. k < L \<Longrightarrow> Suc j \<le> k \<Longrightarrow>
               y ! (i + k) = ?x ! (i + k) + wlen ^ k * ?x ! (i + k + L) \<and>
               y ! (i + k + L) = ?x ! (i + k) - wlen ^ k * ?x ! (i + k + L)"
    and same: "\<And>p. p < length x \<Longrightarrow>
                 p < i + Suc j \<or> (i + L \<le> p \<and> p < i + L + Suc j) \<or> i + 2 * L \<le> p \<Longrightarrow>
                 y ! p = ?x ! p"
    by auto
  have inb: "i + j < length x" "i + j + L < length x"
    using j Suc.prems(1) by simp_all
  have "y ! (i + k) = x ! (i + k) + wlen ^ k * x ! (i + k + L) \<and>
        y ! (i + k + L) = x ! (i + k) - wlen ^ k * x ! (i + k + L)"
    if k: "k < L" "j \<le> k" for k
  proof (cases "k = j")
    case True
    have "y ! (i + j) = ?x ! (i + j)" "y ! (i + j + L) = ?x ! (i + j + L)"
      using inb by (simp_all add: same)
    with True inb j Suc.prems(3) show ?thesis
      by (simp add: nth_list_update)
  next
    case False
    with k have "Suc j \<le> k" by simp
    from upd [OF k(1) this] False k j show ?thesis
      by (simp add: nth_list_update)
  qed
  moreover have "y ! p = x ! p"
    if p: "p < length x" "p < i + j \<or> (i + L \<le> p \<and> p < i + L + j) \<or> i + 2 * L \<le> p" for p
  proof -
    from p have "y ! p = ?x ! p" by (intro same) auto
    also from p j have "?x ! p = x ! p" by (auto simp: nth_list_update)
    finally show ?thesis .
  qed
  ultimately show ?case
    using step y leny by simp
qed

lemma butterfly_loop_correct:
  assumes "i + 2 * L \<le> length x"
  shows "\<exists>y. butterfly_loop (2 * L) wlen i 0 1 x = Some y \<and> length y = length x \<and>
           (\<forall>k<L. y ! (i + k) = x ! (i + k) + wlen ^ k * x ! (i + k + L) \<and>
                   y ! (i + k + L) = x ! (i + k) - wlen ^ k * x ! (i + k + L)) \<and>
           (\<forall>p<length x. p < i \<or> i + 2 * L \<le> p \<longrightarrow> y ! p = x ! p)"
  using butterfly_loop_inv [OF assms, of 0 1 wlen] by auto

section \<open>All blocks of one stage\<close>

lemma block_loop_inv:
  assumes "length x = B * (2 * L)" and "0 < L" and "b0 \<le> B"
  shows "\<exists>y. block_loop (2 * L) wlen (B * (2 * L)) (b0 * (2 * L)) x = Some y \<and>
           length y = length x \<and>
           (\<forall>b<B. \<forall>k<L. b0 \<le> b \<longrightarrow>
               y ! (b * (2 * L) + k) =
                 x ! (b * (2 * L) + k) + wlen ^ k * x ! (b * (2 * L) + k + L) \<and>
               y ! (b * (2 * L) + k + L) =
                 x ! (b * (2 * L) + k) - wlen ^ k * x ! (b * (2 * L) + k + L)) \<and>
           (\<forall>p<b0 * (2 * L). y ! p = x ! p)"
  using assms
proof (induction "B - b0" arbitrary: b0 x)
  case 0
  then have "b0 = B" by simp
  then show ?case
    by (subst block_loop.simps) simp
next
  case (Suc d)
  then have b0: "b0 < B" by simp
  let ?i = "b0 * (2 * L)"
  from b0 have "Suc b0 * (2 * L) \<le> B * (2 * L)"
    by (intro mult_le_mono1) simp
  then have fits: "?i + 2 * L \<le> length x"
    using Suc.prems(1) by simp
  from butterfly_loop_correct [OF fits, of wlen]
  obtain x' where x': "butterfly_loop (2 * L) wlen ?i 0 1 x = Some x'"
    and lenx': "length x' = length x"
    and bf: "\<And>k. k < L \<Longrightarrow>
               x' ! (?i + k) = x ! (?i + k) + wlen ^ k * x ! (?i + k + L) \<and>
               x' ! (?i + k + L) = x ! (?i + k) - wlen ^ k * x ! (?i + k + L)"
    and same: "\<And>p. p < length x \<Longrightarrow> p < ?i \<or> ?i + 2 * L \<le> p \<Longrightarrow> x' ! p = x ! p"
    by auto
  have lt: "?i < B * (2 * L)"
    using b0 Suc.prems(2) by simp
  have step: "block_loop (2 * L) wlen (B * (2 * L)) ?i x =
                block_loop (2 * L) wlen (B * (2 * L)) (Suc b0 * (2 * L)) x'"
    using lt Suc.prems(2) x' by (subst block_loop.simps) (simp add: add.commute)
  have "\<exists>y. block_loop (2 * L) wlen (B * (2 * L)) (Suc b0 * (2 * L)) x' = Some y \<and>
           length y = length x' \<and>
           (\<forall>b<B. \<forall>k<L. Suc b0 \<le> b \<longrightarrow>
               y ! (b * (2 * L) + k) =
                 x' ! (b * (2 * L) + k) + wlen ^ k * x' ! (b * (2 * L) + k + L) \<and>
               y ! (b * (2 * L) + k + L) =
                 x' ! (b * (2 * L) + k) - wlen ^ k * x' ! (b * (2 * L) + k + L)) \<and>
           (\<forall>p<Suc b0 * (2 * L). y ! p = x' ! p)"
  proof (rule Suc.hyps(1))
    show "d = B - Suc b0" using Suc.hyps(2) by simp
    show "length x' = B * (2 * L)" using lenx' Suc.prems(1) by simp
    show "0 < L" by fact
    show "Suc b0 \<le> B" using b0 by simp
  qed
  then obtain y where y: "block_loop (2 * L) wlen (B * (2 * L)) (Suc b0 * (2 * L)) x' = Some y"
    and leny: "length y = length x"
    and later: "\<And>b k. b < B \<Longrightarrow> k < L \<Longrightarrow> Suc b0 \<le> b \<Longrightarrow>
               y ! (b * (2 * L) + k) =
                 x' ! (b * (2 * L) + k) + wlen ^ k * x' ! (b * (2 * L) + k + L) \<and>
               y ! (b * (2 * L) + k + L) =
                 x' ! (b * (2 * L) + k) - wlen ^ k * x' ! (b * (2 * L) + k + L)"
    and before: "\<And>p. p < Suc b0 * (2 * L) \<Longrightarrow> y ! p = x' ! p"
    using lenx' by auto
  have "y ! (b * (2 * L) + k) =
          x ! (b * (2 * L) + k) + wlen ^ k * x ! (b * (2 * L) + k + L) \<and>
        y ! (b * (2 * L) + k + L) =
          x ! (b * (2 * L) + k) - wlen ^ k * x ! (b * (2 * L) + k + L)"
    if bk: "b < B" "k < L" "b0 \<le> b" for b k
  proof (cases "b = b0")
    case True
    have "y ! (?i + k) = x' ! (?i + k)" "y ! (?i + k + L) = x' ! (?i + k + L)"
      using bk(2) by (simp_all add: before)
    with True bf [OF bk(2)] show ?thesis by simp
  next
    case False
    with bk have sb: "Suc b0 \<le> b" by simp
    then have lo: "Suc b0 * (2 * L) \<le> b * (2 * L)"
      by (intro mult_le_mono1)
    from bk(1) have "Suc b * (2 * L) \<le> B * (2 * L)"
      by (intro mult_le_mono1) simp
    then have hi: "b * (2 * L) + k + L < length x"
      using bk(2) Suc.prems(1) by simp
    have "x' ! (b * (2 * L) + k) = x ! (b * (2 * L) + k)"
         "x' ! (b * (2 * L) + k + L) = x ! (b * (2 * L) + k + L)"
      using lo hi by (simp_all add: same)
    with later [OF bk(1,2) sb] show ?thesis by simp
  qed
  moreover have "y ! p = x ! p" if p: "p < ?i" for p
  proof -
    have "y ! p = x' ! p" using p by (simp add: before)
    also have "x' ! p = x ! p"
    proof (rule same)
      show "p < length x" using p fits by linarith
      show "p < ?i \<or> ?i + 2 * L \<le> p" using p by simp
    qed
    finally show ?thesis .
  qed
  ultimately show ?case
    using step y leny by simp
qed

lemma block_loop_correct:
  assumes "length x = B * (2 * L)" and "0 < L"
  shows "\<exists>y. block_loop (2 * L) wlen (B * (2 * L)) 0 x = Some y \<and>
           length y = length x \<and>
           (\<forall>b<B. \<forall>k<L.
               y ! (b * (2 * L) + k) =
                 x ! (b * (2 * L) + k) + wlen ^ k * x ! (b * (2 * L) + k + L) \<and>
               y ! (b * (2 * L) + k + L) =
                 x ! (b * (2 * L) + k) - wlen ^ k * x ! (b * (2 * L) + k + L))"
  using block_loop_inv [OF assms, of 0 wlen] by simp

section \<open>Roots of unity and the splitting of a transform\<close>

lemma sum_even_odd:
  "(\<Sum>u<2 * L. f u) = (\<Sum>t<L. f (2 * t)) + (\<Sum>t<L. f (2 * t + 1))" for f :: "nat \<Rightarrow> complex"
  by (induction L) (simp_all add: algebra_simps)

lemma omega_square: "0 < L \<Longrightarrow> omega (2 * L) ^ 2 = omega L"
  by (simp add: omega_def DeMoivre)

lemma omega_half: "0 < L \<Longrightarrow> omega (2 * L) ^ L = - 1"
  by (simp add: omega_def DeMoivre complex_eq_iff)

lemma omega_even_power: "0 < L \<Longrightarrow> omega (2 * L) ^ (2 * n) = omega L ^ n"
  by (simp add: power_mult omega_square)

lemma omega_full:
  assumes "0 < L"
  shows "omega (2 * L) ^ (2 * L * n) = 1"
proof -
  have "omega (2 * L) ^ (2 * L * n) = (omega (2 * L) ^ L) ^ (2 * n)"
    by (simp add: power_mult [symmetric] mult_ac)
  also have "\<dots> = 1"
    by (simp only: omega_half [OF assms]) simp
  finally show ?thesis .
qed

lemma sub_dft_split_low:
  assumes "0 < L"
  shows "sub_dft x stride off (2 * L) k =
           sub_dft x (2 * stride) off L k
           + omega (2 * L) ^ k * sub_dft x (2 * stride) (off + stride) L k"
proof -
  have ev: "x ! (off + 2 * t * stride) * omega (2 * L) ^ (k * (2 * t))
              = x ! (off + t * (2 * stride)) * omega L ^ (k * t)" for t
    using omega_even_power [OF assms, of "k * t"] by (simp add: mult_ac)
  have od: "x ! (off + (2 * t + 1) * stride) * omega (2 * L) ^ (k * (2 * t + 1))
              = omega (2 * L) ^ k * (x ! (off + stride + t * (2 * stride)) * omega L ^ (k * t))" for t
  proof -
    have "omega (2 * L) ^ (k * (2 * t + 1)) = omega (2 * L) ^ (2 * (k * t)) * omega (2 * L) ^ k"
      by (simp add: power_add [symmetric] algebra_simps)
    also have "\<dots> = omega L ^ (k * t) * omega (2 * L) ^ k"
      by (simp only: omega_even_power [OF assms])
    finally show ?thesis by (simp add: algebra_simps)
  qed
  show ?thesis
    unfolding sub_dft_def sum_even_odd ev od sum_distrib_left ..
qed

lemma sub_dft_split_high:
  assumes "0 < L"
  shows "sub_dft x stride off (2 * L) (k + L) =
           sub_dft x (2 * stride) off L k
           - omega (2 * L) ^ k * sub_dft x (2 * stride) (off + stride) L k"
proof -
  have ev: "x ! (off + 2 * t * stride) * omega (2 * L) ^ ((k + L) * (2 * t))
              = x ! (off + t * (2 * stride)) * omega L ^ (k * t)" for t
  proof -
    have "omega (2 * L) ^ ((k + L) * (2 * t)) = omega (2 * L) ^ (2 * (k * t)) * omega (2 * L) ^ (2 * L * t)"
      by (simp add: power_add [symmetric] algebra_simps)
    also have "\<dots> = omega L ^ (k * t)"
      by (simp only: omega_even_power [OF assms] omega_full [OF assms] mult_1_right)
    finally show ?thesis by (simp add: mult_ac)
  qed
  have od: "x ! (off + (2 * t + 1) * stride) * omega (2 * L) ^ ((k + L) * (2 * t + 1))
              = - (omega (2 * L) ^ k * (x ! (off + stride + t * (2 * stride)) * omega L ^ (k * t)))" for t
  proof -
    have "omega (2 * L) ^ ((k + L) * (2 * t + 1))
            = omega (2 * L) ^ (2 * (k * t)) * omega (2 * L) ^ k * (omega (2 * L) ^ (2 * L * t) * omega (2 * L) ^ L)"
      by (simp add: power_add [symmetric] algebra_simps)
    also have "\<dots> = - (omega L ^ (k * t) * omega (2 * L) ^ k)"
      by (simp only: omega_even_power [OF assms] omega_full [OF assms] omega_half [OF assms]) simp
    finally show ?thesis by (simp add: algebra_simps)
  qed
  show ?thesis
    unfolding sub_dft_def sum_even_odd ev od sum_negf sum_distrib_left by simp
qed

section \<open>The stages\<close>

lemma stage_step:
  assumes s: "s < m" and inv: "stage_inv x m s y" and len: "length y' = length y"
    and bf: "\<forall>b<2 ^ (m - Suc s). \<forall>k<2 ^ s.
               y' ! (b * (2 * 2 ^ s) + k) =
                 y ! (b * (2 * 2 ^ s) + k) + omega (2 * 2 ^ s) ^ k * y ! (b * (2 * 2 ^ s) + k + 2 ^ s) \<and>
               y' ! (b * (2 * 2 ^ s) + k + 2 ^ s) =
                 y ! (b * (2 * 2 ^ s) + k) - omega (2 * 2 ^ s) ^ k * y ! (b * (2 * 2 ^ s) + k + 2 ^ s)"
  shows "stage_inv x m (Suc s) y'"
proof -
  define j where "j = m - Suc s"
  define L :: nat where "L = 2 ^ s"
  have ms: "m - s = Suc j" using s by (simp add: j_def)
  have L: "0 < L" by (simp add: L_def)
  have old: "y ! (c * L + k) = sub_dft x (2 * 2 ^ j) (bit_reverse c (Suc j)) L k"
    if "c < 2 * 2 ^ j" "k < L" for c k
    using inv that unfolding stage_inv_def ms L_def by simp
  have new: "y' ! (b * (2 * L) + k) = sub_dft x (2 ^ j) (bit_reverse b j) (2 * L) k"
    if b: "b < 2 ^ j" and k: "k < 2 * L" for b k
  proof -
    let ?E = "sub_dft x (2 * 2 ^ j) (bit_reverse b j) L"
    let ?O = "sub_dft x (2 * 2 ^ j) (bit_reverse b j + 2 ^ j) L"
    have even: "y ! (b * (2 * L) + k') = ?E k'" if "k' < L" for k'
    proof -
      have "b * (2 * L) + k' = (2 * b) * L + k'" by simp
      with old [of "2 * b" k'] b that show ?thesis
        by (simp only: bit_reverse_even)
    qed
    have odd: "y ! (b * (2 * L) + k' + L) = ?O k'" if "k' < L" for k'
    proof -
      have "b * (2 * L) + k' + L = (2 * b + 1) * L + k'" by (simp add: algebra_simps)
      with old [of "2 * b + 1" k'] b that show ?thesis
        by (simp only: bit_reverse_odd add.commute [of "bit_reverse b j"])
    qed
    show ?thesis
    proof (cases "k < L")
      case True
      from bf b True have "y' ! (b * (2 * L) + k) =
          y ! (b * (2 * L) + k) + omega (2 * L) ^ k * y ! (b * (2 * L) + k + L)"
        by (simp add: j_def L_def)
      with even [OF True] odd [OF True] show ?thesis
        by (simp add: sub_dft_split_low [OF L])
    next
      case False
      define k' where "k' = k - L"
      from False k have k': "k' < L" "k = k' + L" by (simp_all add: k'_def)
      from bf b k'(1) have "y' ! (b * (2 * L) + k' + L) =
          y ! (b * (2 * L) + k') - omega (2 * L) ^ k' * y ! (b * (2 * L) + k' + L)"
        by (simp add: j_def L_def)
      with even [OF k'(1)] odd [OF k'(1)] show ?thesis
        unfolding k'(2) by (simp add: sub_dft_split_high [OF L] add.assoc)
    qed
  qed
  have "length y' = 2 ^ m"
    using len inv by (simp add: stage_inv_def)
  with new show ?thesis
    unfolding stage_inv_def by (simp add: j_def L_def)
qed

lemma wlen_omega:
  "Complex (cos (- 2 * PI / real len)) (sin (- 2 * PI / real len)) = omega len"
  by (simp add: omega_def PI_def complex_eq_iff)

lemma stage_loop_inv:
  assumes "s \<le> m" and "stage_inv x m s y"
  shows "\<exists>z. stage_loop (2 ^ m) (2 ^ Suc s) y = Some z \<and> stage_inv x m m z"
  using assms
proof (induction "m - s" arbitrary: s y)
  case 0
  then have "s = m" by simp
  with 0 show ?case
    by (subst stage_loop.simps) simp
next
  case (Suc d)
  then have s: "s < m" by simp
  have pw: "(2::nat) ^ m = 2 ^ (m - Suc s) * (2 * 2 ^ s)"
    using s by (simp add: power_add [symmetric] flip: power_Suc)
  have leny: "length y = 2 ^ (m - Suc s) * (2 * 2 ^ s)"
    using Suc.prems(2) pw by (simp add: stage_inv_def)
  from block_loop_correct [OF leny, of "omega (2 * 2 ^ s)"]
  obtain y' where y': "block_loop (2 * 2 ^ s) (omega (2 * 2 ^ s)) (2 ^ m) 0 y = Some y'"
    and leny': "length y' = length y"
    and bf: "\<forall>b<2 ^ (m - Suc s). \<forall>k<2 ^ s.
               y' ! (b * (2 * 2 ^ s) + k) =
                 y ! (b * (2 * 2 ^ s) + k) + omega (2 * 2 ^ s) ^ k * y ! (b * (2 * 2 ^ s) + k + 2 ^ s) \<and>
               y' ! (b * (2 * 2 ^ s) + k + 2 ^ s) =
                 y ! (b * (2 * 2 ^ s) + k) - omega (2 * 2 ^ s) ^ k * y ! (b * (2 * 2 ^ s) + k + 2 ^ s)"
    unfolding pw [symmetric] by auto
  have inv': "stage_inv x m (Suc s) y'"
    using s Suc.prems(2) leny' bf by (rule stage_step)
  have le: "(2::nat) ^ Suc s \<le> 2 ^ m"
    using s by (intro power_increasing) simp_all
  have step: "stage_loop (2 ^ m) (2 ^ Suc s) y = stage_loop (2 ^ m) (2 ^ Suc (Suc s)) y'"
    using le y'
    apply (subst stage_loop.simps)
    apply (simp only: Let_def wlen_omega)
    apply (simp add: push_bit_eq_mult)
    done
  have "\<exists>z. stage_loop (2 ^ m) (2 ^ Suc (Suc s)) y' = Some z \<and> stage_inv x m m z"
  proof (rule Suc.hyps(1))
    show "d = m - Suc s" using Suc.hyps(2) by simp
    show "Suc s \<le> m" using s by simp
    show "stage_inv x m (Suc s) y'" by fact
  qed
  with step show ?case by simp
qed

section \<open>The transform computes the discrete Fourier transform\<close>

lemma omega_power_exp:
  "omega n ^ (k * t) = exp (- (2 * of_real pi * \<i> * of_nat k * of_nat t / of_nat n))"
proof -
  have "omega n ^ (k * t) = exp (of_nat (k * t) * (\<i> * of_real (- 2 * pi / real n)))"
    unfolding omega_def cis_conv_exp by (rule exp_of_nat_mult [symmetric])
  also have "of_nat (k * t) * (\<i> * of_real (- 2 * pi / real n))
               = - (2 * of_real pi * \<i> * of_nat k * of_nat t / of_nat n)"
    by simp
  finally show ?thesis .
qed

lemma dft_nth:
  "k < length x \<Longrightarrow> dft x ! k = sub_dft x 1 0 (length x) k"
  by (simp add: dft_def sub_dft_def omega_power_exp)

lemma length_dft [simp]: "length (dft x) = length x"
  by (simp add: dft_def)

lemma stage_inv_initial:
  assumes "length y = 2 ^ m" and "\<forall>k<2 ^ m. y ! k = x ! bit_reverse k m"
  shows "stage_inv x m 0 y"
  using assms by (simp add: stage_inv_def sub_dft_def)

lemma stage_inv_final:
  assumes "length x = 2 ^ m" and "stage_inv x m m z"
  shows "z = dft x"
proof (rule nth_equalityI)
  show "length z = length (dft x)"
    using assms by (simp add: stage_inv_def)
  fix k assume "k < length z"
  then have k: "k < 2 ^ m" using assms(2) by (simp add: stage_inv_def)
  with assms(2) have "z ! k = sub_dft x 1 0 (2 ^ m) k"
    by (simp add: stage_inv_def)
  with k assms(1) show "z ! k = dft x ! k"
    by (simp add: dft_nth)
qed

lemma fft_recursive_dft:
  assumes "length x = 2 ^ m"
  shows "fft_recursive x = Some (dft x)"
proof (cases m)
  case 0
  with assms obtain c where x: "x = [c]"
    by (cases x) simp_all
  show ?thesis
    unfolding x by (simp add: fft_recursive_def dft_def)
next
  case (Suc m')
  have "(1::nat) < 2 ^ m"
    unfolding Suc by (rule one_less_power) simp_all
  then have big: "\<not> length x \<le> 1"
    using assms by simp
  have bits: "count_bits_loop (length x) 0 = m"
    using count_bits_loop_power [of m 0] assms by simp
  from permute_loop_correct [OF assms]
  obtain y where y: "permute_loop (2 ^ m) m 0 x = Some y"
    and leny: "length y = 2 ^ m" and perm: "\<forall>k<2 ^ m. y ! k = x ! bit_reverse k m"
    by blast
  from stage_loop_inv [of 0 m x y] stage_inv_initial [OF leny perm]
  obtain z where z: "stage_loop (2 ^ m) 2 y = Some z" and inv: "stage_inv x m m z"
    by auto
  from assms inv have "z = dft x" by (rule stage_inv_final)
  with big bits y z assms show ?thesis
    by (simp add: fft_recursive_def)
qed

text \<open>
  Claim C5. On every complex vector whose length is a power of two, \<^const>\<open>fft_recursive\<close>
  (the bit-reversal permutation over \<open>log\<^sub>2 N\<close> bits, then the butterfly stages with block
  sizes 2, 4, ..., \<open>N\<close> and the twiddle factor \<open>e\<^sup>-\<^sup>2\<^sup>\<pi>\<^sup>i\<^sup>/\<^sup>l\<^sup>e\<^sup>n\<close> multiplied up inside each
  block) reads and writes inside the vector only and leaves in it the forward discrete
  Fourier transform \<^const>\<open>dft\<close> of its input, in exact arithmetic.
\<close>

theorem fft_recursive_computes_dft:
  assumes "length x = 2 ^ m"
  shows "fft_recursive x = Some (dft x)"
  using assms by (rule fft_recursive_dft)

lemma exp_two_pi: "exp (\<i> * (2 * complex_of_real pi)) = 1"
  using exp_two_pi_i by (simp add: mult.commute)

lemma exp_three_pi: "exp (\<i> * (3 * complex_of_real pi)) = - 1"
proof -
  have "\<i> * (3 * complex_of_real pi) = \<i> * (2 * complex_of_real pi) + \<i> * complex_of_real pi"
    by simp
  then show ?thesis
    by (simp only: exp_add exp_two_pi exp_pi_i') simp
qed

theorem fft_recursive_computes_dft_witness:
  "length [1, 0, - 1, 0 :: complex] = 2 ^ 2 \<and>
   fft_recursive [1, 0, - 1, 0] = Some [0, 2, 0, 2] \<and>
   fft_recursive [1, 2] = Some [3, - 1] \<and>
   fft_recursive [5] = Some [5]"
  using fft_recursive_computes_dft [of "[1, 0, - 1, 0]" 2]
        fft_recursive_computes_dft [of "[1, 2]" 1]
        fft_recursive_computes_dft [of "[5]" 0]
  by (simp add: dft_def eval_nat_numeral lessThan_Suc upt_rec exp_minus exp_two_pi exp_three_pi)

section \<open>The one-sided spectrum\<close>

lemma next_power_of_2_loop_spec:
  assumes "0 < n"
  shows "\<exists>m. next_power_of_2_loop (2 ^ a) n = 2 ^ m \<and> a \<le> m \<and> n \<le> 2 ^ m \<and>
             (m = a \<or> 2 ^ m < 2 * n)"
proof (induction "n - 2 ^ a" arbitrary: a rule: less_induct)
  case less
  show ?case
  proof (cases "2 ^ a < n")
    case False
    then show ?thesis
      by (subst next_power_of_2_loop.simps) (auto intro: exI [of _ a])
  next
    case True
    have step: "next_power_of_2_loop (2 ^ a) n = next_power_of_2_loop (2 ^ Suc a) n"
      using True by (subst next_power_of_2_loop.simps) (simp add: push_bit_eq_mult mult.commute)
    have "(2::nat) ^ a < 2 ^ Suc a" by simp
    then have "n - 2 ^ Suc a < n - 2 ^ a"
      using True by (rule diff_less_mono2)
    from less [OF this] obtain m where m: "next_power_of_2_loop (2 ^ Suc a) n = 2 ^ m"
      "Suc a \<le> m" "n \<le> 2 ^ m" "m = Suc a \<or> 2 ^ m < 2 * n"
      by blast
    from m(4) True have "2 ^ m < 2 * n" by auto
    with m step show ?thesis
      by (intro exI [of _ m]) simp
  qed
qed

lemma next_power_of_2_spec:
  assumes "0 < n"
  shows "\<exists>m. next_power_of_2 n = 2 ^ m \<and> n \<le> 2 ^ m \<and> 2 ^ m < 2 * n"
proof -
  from next_power_of_2_loop_spec [OF assms, of 0]
  obtain m where m: "next_power_of_2 n = 2 ^ m" "n \<le> 2 ^ m" "m = 0 \<or> 2 ^ m < 2 * n"
    by (auto simp: next_power_of_2_def)
  from m(3) assms have "2 ^ m < 2 * n" by auto
  with m show ?thesis by blast
qed

lemma next_power_of_2_no_wrap:
  assumes "0 < n" and "n \<le> 2 ^ 63"
  shows "next_power_of_2 n < 2 ^ 64"
  using next_power_of_2_spec [OF assms(1)] assms(2) by auto

lemma fold_update_upt:
  "k \<le> length xs \<Longrightarrow> fold (\<lambda>i x. x[i := g i]) [0..<k] xs = map g [0..<k] @ drop k xs"
proof (induction k)
  case 0
  show ?case by simp
next
  case (Suc k)
  then have "fold (\<lambda>i x. x[i := g i]) [0..<Suc k] xs = (map g [0..<k] @ drop k xs)[k := g k]"
    by simp
  also have "\<dots> = map g [0..<k] @ (drop k xs)[0 := g k]"
    by (simp add: list_update_append)
  also have "(drop k xs)[0 := g k] = g k # drop (Suc k) xs"
    using Suc.prems by (cases "drop k xs") (simp_all add: drop_Suc tl_drop [symmetric])
  finally show ?case by simp
qed

lemma fold_update_pair:
  "fold (\<lambda>i (a, b). (a[i := g i], b[i := h i])) is (as, bs)
     = (fold (\<lambda>i a. a[i := g i]) is as, fold (\<lambda>i b. b[i := h i]) is bs)"
  by (induction "is" arbitrary: as bs) simp_all

lemma copy_loop_zero_pad:
  assumes "length signal \<le> n"
  shows "fold (\<lambda>i x. x[i := Complex (signal ! i) 0]) [0..<length signal] (replicate n (Complex 0 0))
           = zero_pad n signal"
proof -
  have m: "map (\<lambda>i. Complex (signal ! i) 0) [0..<length signal] = map (\<lambda>s. Complex s 0) signal"
    by (rule nth_equalityI) simp_all
  have z: "Complex 0 0 = 0"
    by (rule complex_eqI) simp_all
  show ?thesis
    unfolding z using assms by (simp add: fold_update_upt m zero_pad_def)
qed

lemma fill_loop:
  "fold (\<lambda>i (magnitudes, frequencies). (magnitudes[i := g i], frequencies[i := h i]))
        [0..<k] (replicate k (0::real), replicate k (0::real))
     = (map g [0..<k], map h [0..<k])"
  by (simp add: fold_update_pair fold_update_upt)

lemma length_zero_pad: "length signal \<le> n \<Longrightarrow> length (zero_pad n signal) = n"
  by (simp add: zero_pad_def)

lemma compute_fft_closed_form:
  assumes "signal \<noteq> []"
  shows "compute_fft this signal =
           (let N = next_power_of_2 (length signal);
                X = dft (zero_pad N signal);
                mags = map (\<lambda>i. cmod (X ! i) * 2 / real N) [0..<N div 2]
            in Some (if mags \<noteq> [] then mags[0 := mags ! 0 / 2] else mags,
                     map (\<lambda>i. real i * (sample_rate this / real N)) [0..<N div 2]))"
proof -
  define N where "N = next_power_of_2 (length signal)"
  from assms have "0 < length signal" by simp
  from next_power_of_2_spec [OF this] obtain m
    where "next_power_of_2 (length signal) = 2 ^ m" "length signal \<le> 2 ^ m"
    by blast
  then have m: "N = 2 ^ m" "length signal \<le> N"
    by (simp_all add: N_def)
  have pad: "fold (\<lambda>i x. x[i := Complex (signal ! i) 0]) [0..<length signal]
               (replicate N (Complex 0 0)) = zero_pad N signal"
    using m(2) by (rule copy_loop_zero_pad)
  have "length (zero_pad N signal) = 2 ^ m"
    using m by (simp add: length_zero_pad)
  then have fft: "fft_recursive (zero_pad N signal) = Some (dft (zero_pad N signal))"
    by (rule fft_recursive_dft)
  show ?thesis
    using assms unfolding compute_fft_def N_def [symmetric] Let_def pad
    by (simp add: fft fill_loop)
qed

text \<open>
  Claim C1. For a non-empty window, with \<open>N\<close> the power of two that
  \<^const>\<open>next_power_of_2\<close> returns for its length (the least one that is at least the
  length) and \<open>X\<close> the transform of the window padded with zeros to length \<open>N\<close>,
  \<^const>\<open>compute_fft\<close> returns exactly \<open>N div 2\<close> magnitudes and \<open>N div 2\<close> frequencies;
  the magnitude of bin \<open>k \<ge> 1\<close> is \<open>|X[k]| \<sqdot> 2 / N\<close>, that of bin 0 is \<open>|X[0]| / N\<close>, and
  the frequency of bin \<open>k\<close> is \<open>k \<sqdot> (sample_rate / N)\<close>.
\<close>

theorem compute_fft_one_sided_spectrum:
  assumes "signal \<noteq> []"
  defines "N \<equiv> next_power_of_2 (length signal)"
  defines "X \<equiv> dft (zero_pad N signal)"
  shows "(\<exists>m. N = 2 ^ m) \<and> length signal \<le> N \<and> N < 2 * length signal \<and>
         fft_recursive (zero_pad N signal) = Some X \<and>
         (\<exists>magnitudes frequencies.
            compute_fft this signal = Some (magnitudes, frequencies) \<and>
            length magnitudes = N div 2 \<and> length frequencies = N div 2 \<and>
            (\<forall>k<N div 2.
               magnitudes ! k = (if k = 0 then cmod (X ! 0) / real N
                                 else cmod (X ! k) * 2 / real N) \<and>
               frequencies ! k = real k * (sample_rate this / real N)))"
proof -
  from assms(1) have "0 < length signal" by simp
  from next_power_of_2_spec [OF this] obtain m
    where "next_power_of_2 (length signal) = 2 ^ m" "length signal \<le> 2 ^ m"
      "2 ^ m < 2 * length signal"
    by blast
  then have m: "N = 2 ^ m" "length signal \<le> N" "N < 2 * length signal"
    by (simp_all add: N_def)
  have "length (zero_pad N signal) = 2 ^ m"
    using m(1,2) by (simp add: length_zero_pad)
  then have fft: "fft_recursive (zero_pad N signal) = Some X"
    unfolding X_def by (rule fft_recursive_dft)
  let ?mags = "map (\<lambda>i. cmod (X ! i) * 2 / real N) [0..<N div 2]"
  let ?mags' = "if ?mags \<noteq> [] then ?mags[0 := ?mags ! 0 / 2] else ?mags"
  have res: "compute_fft this signal =
               Some (?mags', map (\<lambda>i. real i * (sample_rate this / real N)) [0..<N div 2])"
    using compute_fft_closed_form [OF assms(1), of this]
    by (simp add: Let_def N_def X_def)
  have "?mags' ! k = (if k = 0 then cmod (X ! 0) / real N else cmod (X ! k) * 2 / real N)"
    if "k < N div 2" for k
    using that by (cases k) simp_all
  then show ?thesis
    using m fft res by auto
qed

lemma next_power_of_2_four: "next_power_of_2 (length [a, b, c, d]) = 4"
  by (simp add: next_power_of_2_def next_power_of_2_loop.simps)

lemma dft_example:
  "dft (zero_pad 4 [1, 0, - 1, 0]) ! 0 = 0" "dft (zero_pad 4 [1, 0, - 1, 0]) ! Suc 0 = 2"
  by (simp_all add: dft_def zero_pad_def eval_nat_numeral lessThan_Suc exp_minus complex_eq_iff)

theorem compute_fft_one_sided_spectrum_witness:
  "[1, 0, - 1, 0 :: real] \<noteq> [] \<and>
   (\<exists>magnitudes frequencies.
      compute_fft \<lparr>sample_rate = 40000\<rparr> [1, 0, - 1, 0] = Some (magnitudes, frequencies) \<and>
      length magnitudes = 2 \<and> length frequencies = 2 \<and>
      magnitudes ! 0 = 0 \<and> magnitudes ! 1 = 1 \<and>
      frequencies ! 0 = 0 \<and> frequencies ! 1 = 10000)"
proof -
  have ne: "[1, 0, - 1, 0 :: real] \<noteq> []" by simp
  from compute_fft_one_sided_spectrum [OF ne, of "\<lparr>sample_rate = 40000\<rparr>"]
  obtain magnitudes frequencies where
    r: "compute_fft \<lparr>sample_rate = 40000\<rparr> [1, 0, - 1, 0] = Some (magnitudes, frequencies)"
      "length magnitudes = 2" "length frequencies = 2"
    and bins: "\<And>k. k < 2 \<Longrightarrow>
       magnitudes ! k = (if k = 0 then cmod (dft (zero_pad 4 [1, 0, - 1, 0]) ! 0) / 4
                         else cmod (dft (zero_pad 4 [1, 0, - 1, 0]) ! k) * 2 / 4) \<and>
       frequencies ! k = real k * (40000 / 4)"
    unfolding next_power_of_2_four by auto
  from bins [of 0] bins [of 1] r ne show ?thesis
    by (simp add: dft_example)
qed

lemma compute_fft_example:
  "compute_fft \<lparr>sample_rate = 40000\<rparr> [1, 0, - 1, 0] = Some ([0, 1], [0, 10000])"
proof -
  have ne: "[1, 0, - 1, 0 :: real] \<noteq> []" by simp
  have u: "[0..<2] = [0, Suc 0]" by (simp add: upt_rec)
  show ?thesis
    unfolding compute_fft_closed_form [OF ne] next_power_of_2_four Let_def
    by (simp add: u dft_example)
qed

section \<open>Band powers\<close>

lemma band_loop_first_match:
  assumes "length bp = 5"
  shows "band_loop freq p 0 bp =
     (if 0 \<le> freq \<and> freq < 100 then bp[0 := bp ! 0 + p]
      else if 100 \<le> freq \<and> freq < 500 then bp[1 := bp ! 1 + p]
      else if 500 \<le> freq \<and> freq < 1000 then bp[2 := bp ! 2 + p]
      else if 1000 \<le> freq \<and> freq < 2000 then bp[3 := bp ! 3 + p]
      else if 2000 \<le> freq \<and> freq < 10000 then bp[4 := bp ! 4 + p]
      else bp)"
  by (simp add: band_loop.simps FREQ_BANDS_def eval_nat_numeral)

lemma band_loop_no_band:
  assumes "length bp = 5" and "10000 \<le> freq"
  shows "band_loop freq p 0 bp = bp"
  using assms by (simp add: band_loop_first_match)

text \<open>
  Claim C2, at an input where the code departs from it. With a stored sample rate of
  40000 Hz the window \<open>[1, 0, -1, 0]\<close> has a spectrum of two bins, the second of
  magnitude 1 at 10000 Hz. That frequency is above the lower edge 2000 Hz of the last
  band, yet \<^const>\<open>compute_bandpower\<close> counts the bin in no band, because the table
  ends the band named \<open>2000+ Hz\<close> at 10000 Hz: all five sums stay 0.
\<close>

theorem bandpower_misses_bins_from_10000_Hz:
  "compute_fft \<lparr>sample_rate = 40000\<rparr> [1, 0, - 1, 0] = Some ([0, 1], [0, 10000]) \<and>
   compute_bandpower [0, 1] [0, 10000] = [0, 0, 0, 0, 0] \<and>
   (\<exists>r. extract_all \<lparr>sample_rate = 40000\<rparr> [1, 0, - 1, 0] = Some r \<and>
        fft_magnitude r = [0, 1] \<and> fft_frequencies r = [0, 10000] \<and>
        bandpowers r = [0, 0, 0, 0, 0])"
proof -
  have u: "[0..<2] = [0, Suc 0]" by (simp add: upt_rec)
  have bp: "compute_bandpower [0, 1] [0, 10000] = [0, 0, 0, 0, 0]"
    by (simp add: compute_bandpower_def u band_loop.simps FREQ_BANDS_def)
  then show ?thesis
    by (simp add: extract_all_def compute_fft_example Let_def)
qed

section \<open>Rounding to a double\<close>

















section \<open>Sums of squares, quotients and roots that are not negative\<close>












section \<open>Constant windows in double arithmetic\<close>


















end
